theory Spec2Isabelle
  imports Main
begin

section \<open>Data model\<close>

text \<open>
  A Go \<open>rune\<close> is a signed 32-bit integer.  Runes are modelled as \<open>int\<close>; every
  conversion \<open>rune(e)\<close> of the source is written as \<open>rune e\<close>, which wraps into the
  signed 32-bit range.  A Go \<open>byte\<close> and a byte of a Go string are a \<open>char\<close>.
\<close>

definition rune :: "int \<Rightarrow> int" where
  "rune i = (i + 2147483648) mod 4294967296 - 2147483648"

record Codepoint =
  Codepoint :: int
  MajorCategory :: char
  MinorCategory :: char

record Range =
  Begin :: int
  End :: int

type_synonym CodepointMatcher = "Codepoint \<Rightarrow> bool"

section \<open>Rendering of ranges\<close>

text \<open>
  \<open>fmt\<close>'s verb \<open>%X\<close> on a signed integer: a minus sign for a negative value, then the
  magnitude in base 16 with the digits \<open>0123456789ABCDEF\<close>, most significant first,
  without padding.
\<close>

definition hexDigit :: "nat \<Rightarrow> char" where
  "hexDigit d = ''0123456789ABCDEF'' ! d"

fun fmtHexNat :: "nat \<Rightarrow> string" where
  "fmtHexNat n = (if n < 16 then [hexDigit n] else fmtHexNat (n div 16) @ [hexDigit (n mod 16)])"

declare fmtHexNat.simps [simp del]

definition fmtX :: "int \<Rightarrow> string" where
  "fmtX v = (if v < 0 then ''-'' @ fmtHexNat (nat (- v)) else fmtHexNat (nat v))"

definition Range_String :: "Range \<Rightarrow> string" where
  "Range_String r =
     (if Begin r = End r then ''#x'' @ fmtX (Begin r)
      else ''[#x'' @ fmtX (Begin r) @ ''-#x'' @ fmtX (End r) @ '']'')"

text \<open>\<open>Ranges.String\<close>: the loop over the slice with its index and the builder.\<close>

fun Ranges_String_loop :: "Range list \<Rightarrow> nat \<Rightarrow> string \<Rightarrow> string" where
  "Ranges_String_loop [] i sb = sb"
| "Ranges_String_loop (r # rs) i sb =
     Ranges_String_loop rs (i + 1) ((if i > 0 then sb @ '' | '' else sb) @ Range_String r)"

definition Ranges_String :: "Range list \<Rightarrow> string" where
  "Ranges_String rs = Ranges_String_loop rs 0 []"

section \<open>The layout printer\<close>

text \<open>
  \<open>printLine\<close> returns the number of entries it used together with the text it wrote to
  standard output.  The loop carries the index \<open>i\<close> (equal to \<open>entriesUsed\<close> throughout),
  the length \<open>n\<close> of the slice, the column and the text printed so far.
\<close>

fun printLine_loop :: "Range list \<Rightarrow> nat \<Rightarrow> nat \<Rightarrow> int \<Rightarrow> int \<Rightarrow> string \<Rightarrow> nat \<times> string" where
  "printLine_loop [] i n col highCol out = (i, out)"
| "printLine_loop (r # rs) i n col highCol out =
     (let str = (if i > 0 then '' '' else '''') @ Range_String r
                @ (if int i < int n - 1 then '' |'' else '''');
          col' = col + int (length str)
      in if col' > highCol then (i, out)
         else printLine_loop rs (i + 1) n col' highCol (out @ str))"

definition printLine :: "Range list \<Rightarrow> int \<Rightarrow> int \<Rightarrow> nat \<times> string" where
  "printLine ranges lowCol highCol =
     (let res = printLine_loop ranges 0 (length ranges) lowCol highCol []
      in (fst res, snd res @ [CHR 0x0A]))"

text \<open>
  The loop of \<open>printRanges\<close> has no variant in the source, so it is a partial function:
  \<open>None\<close> is a run that never returns.  \<open>out\<close> is the text written so far.
\<close>

partial_function (option) printRanges_loop ::
  "string \<Rightarrow> Range list \<Rightarrow> string \<Rightarrow> int \<Rightarrow> string option" where
  "printRanges_loop out ranges leadup highCol =
     (if length ranges > 0
      then (let res = printLine ranges (int (length leadup)) highCol
            in printRanges_loop (out @ leadup @ snd res) (drop (fst res) ranges)
                 (replicate (length leadup) CHR '' '') highCol)
      else Some out)"

declare printRanges_loop.simps [code]

definition printRanges :: "Range list \<Rightarrow> string \<Rightarrow> int \<Rightarrow> string option" where
  "printRanges ranges leadup highCol =
     (if highCol \<le> 0 then Some (leadup @ Ranges_String ranges @ [CHR 0x0A])
      else printRanges_loop [] ranges leadup highCol)"

section \<open>Library functions used by the matcher compiler\<close>

text \<open>
  \<open>strings.Split(s, sep)\<close> for a separator of one byte: the pieces of \<open>s\<close> between
  the occurrences of \<open>sep\<close>; the empty string gives one empty piece.
\<close>

fun strings_Split :: "string \<Rightarrow> char \<Rightarrow> string list" where
  "strings_Split [] sep = [[]]"
| "strings_Split (c # cs) sep =
     (if c = sep then [] # strings_Split cs sep
      else (case strings_Split cs sep of
              [] \<Rightarrow> [[c]]
            | w # ws \<Rightarrow> (c # w) # ws))"

text \<open>
  \<open>strconv.ParseUint(s, 16, 32)\<close>: the empty string is a syntax error; the bytes are
  read from the left, a byte that is no digit below the base is a syntax error, a value
  above \<open>2^32 - 1\<close> is a range error.  (The accumulator never exceeds \<open>2^32 - 1\<close>, so
  the library's 64-bit cutoff test never fires; it is kept as written.)
\<close>

datatype parse_err = ErrSyntax | ErrRange

definition digitVal :: "char \<Rightarrow> nat option" where
  "digitVal c =
     (let v = (of_char c :: nat)
      in if 48 \<le> v \<and> v \<le> 57 then Some (v - 48)
         else if 97 \<le> v \<and> v \<le> 122 then Some (v - 97 + 10)
         else if 65 \<le> v \<and> v \<le> 90 then Some (v - 65 + 10)
         else None)"

fun ParseUint_loop :: "string \<Rightarrow> nat \<Rightarrow> parse_err + nat" where
  "ParseUint_loop [] n = Inr n"
| "ParseUint_loop (c # cs) n =
     (case digitVal c of
        None \<Rightarrow> Inl ErrSyntax
      | Some d \<Rightarrow>
          if d \<ge> 16 then Inl ErrSyntax
          else if n \<ge> 1152921504606846976 then Inl ErrRange
          else (let n1 = n * 16 + d
                in if n1 > 4294967295 then Inl ErrRange else ParseUint_loop cs n1))"

definition ParseUint :: "string \<Rightarrow> parse_err + nat" where
  "ParseUint s = (if s = [] then Inl ErrSyntax else ParseUint_loop s 0)"

text \<open>
  \<open>utf8.DecodeRuneInString\<close>: the first byte selects, through the table \<open>first\<close>, an
  ASCII byte (\<open>AS\<close>), an invalid byte (\<open>XX\<close>) or a sequence with its size and the
  accepted range of the second byte.  A failed decode returns \<open>RuneError\<close> with width
  0 (empty input) or 1.
\<close>

definition RuneError :: int where
  "RuneError = 0xFFFD"

datatype first_info = AS | XX | Seq nat nat nat

definition first :: "nat \<Rightarrow> first_info" where
  "first b =
     (if b < 0x80 then AS
      else if b < 0xC2 then XX
      else if b < 0xE0 then Seq 2 0x80 0xBF
      else if b = 0xE0 then Seq 3 0xA0 0xBF
      else if b < 0xED then Seq 3 0x80 0xBF
      else if b = 0xED then Seq 3 0x80 0x9F
      else if b < 0xF0 then Seq 3 0x80 0xBF
      else if b = 0xF0 then Seq 4 0x90 0xBF
      else if b < 0xF4 then Seq 4 0x80 0xBF
      else if b = 0xF4 then Seq 4 0x80 0x8F
      else XX)"

definition DecodeRuneInString :: "string \<Rightarrow> int \<times> nat" where
  "DecodeRuneInString s =
     (if length s < 1 then (RuneError, 0)
      else (let s0 = (of_char (s ! 0) :: nat)
            in case first s0 of
                 AS \<Rightarrow> (int s0, 1)
               | XX \<Rightarrow> (RuneError, 1)
               | Seq sz lo hi \<Rightarrow>
                   if length s < sz then (RuneError, 1)
                   else (let s1 = (of_char (s ! 1) :: nat)
                         in if s1 < lo \<or> hi < s1 then (RuneError, 1)
                            else if sz \<le> 2 then (int ((s0 mod 32) * 64 + s1 mod 64), 2)
                            else (let s2 = (of_char (s ! 2) :: nat)
                                  in if s2 < 0x80 \<or> 0xBF < s2 then (RuneError, 1)
                                     else if sz \<le> 3
                                     then (int ((s0 mod 16) * 4096 + (s1 mod 64) * 64 + s2 mod 64), 3)
                                     else (let s3 = (of_char (s ! 3) :: nat)
                                           in if s3 < 0x80 \<or> 0xBF < s3 then (RuneError, 1)
                                              else (int ((s0 mod 8) * 262144 + (s1 mod 64) * 4096
                                                         + (s2 mod 64) * 64 + s3 mod 64), 4))))))"

section \<open>The matcher compiler\<close>

text \<open>
  What \<open>parseMatchers\<close> writes is a list of events: text on standard output, and a call
  of \<open>printUsage\<close>.  A \<open>panic(err)\<close> is the left summand, with the \<open>NumError\<close> of
  \<open>strconv\<close> (the number it was given and the kind of error).  The function has a named
  result, so its bare \<open>return\<close> after a usage message hands the matchers collected so
  far back to the caller.
\<close>

datatype event = Stdout string | PrintUsage

datatype fatal = NumError string parse_err

definition unknownParam ::
  "string \<Rightarrow> CodepointMatcher list \<Rightarrow> fatal + (event list \<times> CodepointMatcher list)" where
  "unknownParam matcher cpMatchers =
     Inr ([Stdout (matcher @ '': Unknown query param''), PrintUsage], cpMatchers)"

fun parseMatchers_loop ::
  "string list \<Rightarrow> CodepointMatcher list \<Rightarrow> fatal + (event list \<times> CodepointMatcher list)" where
  "parseMatchers_loop [] cpMatchers = Inr ([], cpMatchers)"
| "parseMatchers_loop (matcher # rest) cpMatchers =
     (if length matcher = 0 then parseMatchers_loop rest cpMatchers
      else (let args = strings_Split matcher CHR ''='' in
        if length args \<noteq> 2 then unknownParam matcher cpMatchers
        else if args ! 0 = ''cat'' then
          (let cat = args ! 1 in
           if length cat = 1 then
             parseMatchers_loop rest (cpMatchers @ [\<lambda>cp. MajorCategory cp = cat ! 0])
           else if length cat = 2 then
             parseMatchers_loop rest
               (cpMatchers @ [\<lambda>cp. MajorCategory cp = cat ! 0 \<and> MinorCategory cp = cat ! 1])
           else unknownParam matcher cpMatchers)
        else if args ! 0 = ''ch'' then
          (let ch = args ! 1; lowHi = strings_Split ch CHR ''-'' in
           if length lowHi = 1 then
             (let code = fst (DecodeRuneInString ch)
              in parseMatchers_loop rest (cpMatchers @ [\<lambda>cp. Codepoint cp = code]))
           else
             (let low = fst (DecodeRuneInString (lowHi ! 0));
                  hi = fst (DecodeRuneInString (lowHi ! 1))
              in parseMatchers_loop rest
                   (cpMatchers @ [\<lambda>cp. Codepoint cp \<ge> low \<and> Codepoint cp \<le> hi])))
        else if args ! 0 = ''cp'' then
          (let cp = args ! 1; lowHi = strings_Split cp CHR ''-'' in
           if length lowHi = 1 then
             (case ParseUint (args ! 1) of
                Inl err \<Rightarrow> Inl (NumError (args ! 1) err)
              | Inr code \<Rightarrow>
                  parseMatchers_loop rest (cpMatchers @ [\<lambda>cp. Codepoint cp = rune (int code)]))
           else
             (case ParseUint (lowHi ! 0) of
                Inl err \<Rightarrow> Inl (NumError (lowHi ! 0) err)
              | Inr lowCode \<Rightarrow>
                  (case ParseUint (lowHi ! 1) of
                     Inl err \<Rightarrow> Inl (NumError (lowHi ! 1) err)
                   | Inr hiCode \<Rightarrow>
                       parseMatchers_loop rest
                         (cpMatchers @ [\<lambda>cp. Codepoint cp \<ge> rune (int lowCode)
                                              \<and> Codepoint cp \<le> rune (int hiCode)]))))
        else unknownParam matcher cpMatchers))"

definition parseMatchers :: "string \<Rightarrow> fatal + (event list \<times> CodepointMatcher list)" where
  "parseMatchers matchers = parseMatchers_loop (strings_Split matchers CHR '' '') []"

section \<open>The range scanner\<close>

text \<open>
  The table \<open>allCodepoints\<close> is a generated file of the program and is a parameter here.
  The loop state is the index \<open>i\<close>, \<open>inRange\<close>, \<open>startRange\<close> and the ranges
  appended so far.
\<close>

fun query_loop ::
  "CodepointMatcher \<Rightarrow> CodepointMatcher \<Rightarrow> Codepoint list \<Rightarrow> nat \<Rightarrow> bool \<Rightarrow> int \<Rightarrow> Range list
   \<Rightarrow> bool \<times> int \<times> Range list" where
  "query_loop inclusiveMatcher exclusiveMatcher [] i inRange startRange ranges =
     (inRange, startRange, ranges)"
| "query_loop inclusiveMatcher exclusiveMatcher (cp # cps) i inRange startRange ranges =
     (if inclusiveMatcher cp \<and> \<not> exclusiveMatcher cp
      then query_loop inclusiveMatcher exclusiveMatcher cps (i + 1) True
             (if \<not> inRange then rune (int i) else startRange) ranges
      else query_loop inclusiveMatcher exclusiveMatcher cps (i + 1) False startRange
             (if inRange then ranges @ [\<lparr>Begin = startRange, End = rune (int i - 1)\<rparr>]
              else ranges))"

definition query :: "Codepoint list \<Rightarrow> CodepointMatcher \<Rightarrow> CodepointMatcher \<Rightarrow> Range list" where
  "query allCodepoints inclusiveMatcher exclusiveMatcher =
     (case query_loop inclusiveMatcher exclusiveMatcher allCodepoints 0 False 0 [] of
        (inRange, startRange, ranges) \<Rightarrow>
          if inRange
          then ranges @ [\<lparr>Begin = startRange,
                          End = Codepoint (allCodepoints ! (length allCodepoints - 1))\<rparr>]
          else ranges)"

section \<open>The query path of \<open>main\<close>\<close>

text \<open>
  From the joined query string \<open>q\<close> on.  The flags \<open>-range\<close> (already parsed into
  \<open>lowCP\<close> and \<open>highCP\<close>, both below \<open>2^32\<close>), \<open>-leadup\<close> and \<open>-highcol\<close> are
  parameters.  The result is the events of the matcher compiler followed by the text of
  \<open>printRanges\<close> (\<open>None\<close> when \<open>printRanges\<close> never returns), or the panic.
\<close>

definition exclusiveMatchers :: "nat \<Rightarrow> nat \<Rightarrow> CodepointMatcher list" where
  "exclusiveMatchers lowCP highCP =
     (if lowCP > 0 \<or> highCP < 0x10ffff
      then [\<lambda>cp. Codepoint cp < rune (int lowCP) \<or> Codepoint cp > rune (int highCP)]
      else [])"

definition anyMatcher :: "CodepointMatcher list \<Rightarrow> CodepointMatcher" where
  "anyMatcher matchers = (\<lambda>cp. list_ex (\<lambda>matcher. matcher cp) matchers)"

definition main_query ::
  "Codepoint list \<Rightarrow> nat \<Rightarrow> nat \<Rightarrow> string \<Rightarrow> int \<Rightarrow> string \<Rightarrow> fatal + (event list \<times> string option)" where
  "main_query allCodepoints lowCP highCP leadup highCol q =
     (case parseMatchers q of
        Inl err \<Rightarrow> Inl err
      | Inr (events, inclusiveMatchers) \<Rightarrow>
          (let ranges = query allCodepoints (anyMatcher inclusiveMatchers)
                          (anyMatcher (exclusiveMatchers lowCP highCP))
           in Inr (events, printRanges ranges leadup highCol)))"

section \<open>Specification-level notions\<close>

text \<open>
  Uppercase hexadecimal without padding, read from the text: the digits are among
  \<open>0123456789ABCDEF\<close>, the first digit is not \<open>0\<close> unless the text is \<open>0\<close>, and the
  digits denote the number in base 16.  A negative number carries a minus sign.
\<close>

definition hexCharValue :: "char \<Rightarrow> nat" where
  "hexCharValue c = (if (of_char c :: nat) < 65 then of_char c - 48 else of_char c - 55)"

definition hexValue :: "string \<Rightarrow> nat" where
  "hexValue s = foldl (\<lambda>a c. 16 * a + hexCharValue c) 0 s"

definition is_upper_hex :: "string \<Rightarrow> nat \<Rightarrow> bool" where
  "is_upper_hex s n \<longleftrightarrow>
     s \<noteq> [] \<and> set s \<subseteq> set ''0123456789ABCDEF''
     \<and> (s = ''0'' \<or> hd s \<in> set ''123456789ABCDEF'') \<and> hexValue s = n"

definition is_hex_of :: "string \<Rightarrow> int \<Rightarrow> bool" where
  "is_hex_of s v \<longleftrightarrow>
     (if v < 0 then s \<noteq> [] \<and> hd s = CHR ''-'' \<and> is_upper_hex (tl s) (nat (- v))
      else is_upper_hex s (nat v))"

text \<open>
  Joining texts with a separator between neighbours, and the page a wrapped print is
  compared with: one line per group of ranges, the group joined by \<open> | \<close>, every line
  but the last closed by \<open> |\<close>, the first line behind \<open>pad\<close> and the later ones behind
  blanks of the same length.
\<close>

fun join_sep :: "string \<Rightarrow> string list \<Rightarrow> string" where
  "join_sep sep [] = []"
| "join_sep sep [x] = x"
| "join_sep sep (x # y # ys) = x @ sep @ join_sep sep (y # ys)"

fun layout :: "Range list list \<Rightarrow> string \<Rightarrow> string" where
  "layout [] pad = []"
| "layout (g # gs) pad =
     pad @ join_sep '' | '' (map Range_String g) @ (if gs = [] then [] else '' |'')
       @ [CHR 0x0A] @ layout gs (replicate (length pad) CHR '' '')"

text \<open>
  The contract of the codepoint table: consecutive scalar values in ascending order,
  from \<open>lo\<close> (which is \<open>0\<close> for the unrestricted table), all within \<open>0 .. 0x10FFFF\<close>.
\<close>

fun dense_from :: "int \<Rightarrow> Codepoint list \<Rightarrow> bool" where
  "dense_from lo [] = True"
| "dense_from lo (cp # cps) = (Codepoint cp = lo \<and> dense_from (lo + 1) cps)"

definition table_from :: "int \<Rightarrow> Codepoint list \<Rightarrow> bool" where
  "table_from lo allCodepoints \<longleftrightarrow>
     0 \<le> lo \<and> dense_from lo allCodepoints \<and> lo + int (length allCodepoints) \<le> 0x110000"

text \<open>
  The invariant of the scan after the records \<open>pre\<close>: the closed ranges are well formed
  and end more than one below the open run (or below the next position), and the closed
  ranges together with the open run cover exactly the matching positions.
\<close>

definition scan_inv ::
  "CodepointMatcher \<Rightarrow> Codepoint list \<Rightarrow> bool \<Rightarrow> int \<Rightarrow> Range list \<Rightarrow> bool" where
  "scan_inv m pre inRange startRange ranges \<longleftrightarrow>
     (\<forall>r \<in> set ranges. 0 \<le> Begin r \<and> Begin r \<le> End r
          \<and> End r + 1 < (if inRange then startRange else int (length pre)))
     \<and> sorted_wrt (\<lambda>r s. End r + 1 < Begin s) ranges
     \<and> (inRange \<longrightarrow> 0 \<le> startRange \<and> startRange < int (length pre))
     \<and> (\<forall>j. ((\<exists>r \<in> set ranges. Begin r \<le> j \<and> j \<le> End r)
               \<or> (inRange \<and> startRange \<le> j \<and> j < int (length pre)))
            \<longleftrightarrow> (0 \<le> j \<and> j < int (length pre) \<and> m (pre ! nat j)))"


text \<open>
  Well-formed UTF-8 at the head of a byte string, after the table of well-formed byte
  sequences of the Unicode standard: one row for each length, \<open>cont\<close> for a
  continuation byte.  A value is undecodable when it does not begin with a well-formed
  sequence; the empty value is undecodable.  A \<open>cp=\<close> value is rejected when
  \<open>ParseUint\<close> fails on one of the pieces the compiler reads (the first two pieces
  between dashes).
\<close>

definition cont :: "nat \<Rightarrow> bool" where
  "cont b \<longleftrightarrow> 0x80 \<le> b \<and> b \<le> 0xBF"

definition row1 :: "nat \<Rightarrow> bool" where
  "row1 b0 \<longleftrightarrow> b0 \<le> 0x7F"

definition row2 :: "nat \<Rightarrow> nat \<Rightarrow> bool" where
  "row2 b0 b1 \<longleftrightarrow> 0xC2 \<le> b0 \<and> b0 \<le> 0xDF \<and> cont b1"

definition row3 :: "nat \<Rightarrow> nat \<Rightarrow> nat \<Rightarrow> bool" where
  "row3 b0 b1 b2 \<longleftrightarrow>
     ((b0 = 0xE0 \<and> 0xA0 \<le> b1 \<and> b1 \<le> 0xBF) \<or> (0xE1 \<le> b0 \<and> b0 \<le> 0xEC \<and> cont b1)
      \<or> (b0 = 0xED \<and> 0x80 \<le> b1 \<and> b1 \<le> 0x9F) \<or> (0xEE \<le> b0 \<and> b0 \<le> 0xEF \<and> cont b1))
     \<and> cont b2"

definition row4 :: "nat \<Rightarrow> nat \<Rightarrow> nat \<Rightarrow> nat \<Rightarrow> bool" where
  "row4 b0 b1 b2 b3 \<longleftrightarrow>
     ((b0 = 0xF0 \<and> 0x90 \<le> b1 \<and> b1 \<le> 0xBF) \<or> (0xF1 \<le> b0 \<and> b0 \<le> 0xF3 \<and> cont b1)
      \<or> (b0 = 0xF4 \<and> 0x80 \<le> b1 \<and> b1 \<le> 0x8F))
     \<and> cont b2 \<and> cont b3"

fun utf8_wf :: "nat list \<Rightarrow> bool" where
  "utf8_wf (b0 # b1 # b2 # b3 # bs) = (row1 b0 \<or> row2 b0 b1 \<or> row3 b0 b1 b2 \<or> row4 b0 b1 b2 b3)"
| "utf8_wf [b0, b1, b2] = (row1 b0 \<or> row2 b0 b1 \<or> row3 b0 b1 b2)"
| "utf8_wf [b0, b1] = (row1 b0 \<or> row2 b0 b1)"
| "utf8_wf [b0] = row1 b0"
| "utf8_wf [] = False"

definition cp_value_rejected :: "string \<Rightarrow> bool" where
  "cp_value_rejected v \<longleftrightarrow>
     list_ex (\<lambda>piece. isl (ParseUint piece)) (take 2 (strings_Split v CHR ''-''))"

definition undecodable :: "string \<Rightarrow> bool" where
  "undecodable s \<longleftrightarrow> \<not> utf8_wf (map of_char s)"

section \<open>Rendering of a range\<close>

lemma lt16_cases:
  "(d::nat) < 16 \<Longrightarrow> d = 0 \<or> d = 1 \<or> d = 2 \<or> d = 3 \<or> d = 4 \<or> d = 5 \<or> d = 6 \<or> d = 7
     \<or> d = 8 \<or> d = 9 \<or> d = 10 \<or> d = 11 \<or> d = 12 \<or> d = 13 \<or> d = 14 \<or> d = 15"
  by arith

lemma hexDigit_value: "d < 16 \<Longrightarrow> hexCharValue (hexDigit d) = d"
  by (drule lt16_cases) (auto simp: hexDigit_def hexCharValue_def)

lemma hexDigit_in: "d < 16 \<Longrightarrow> hexDigit d \<in> set ''0123456789ABCDEF''"
  by (drule lt16_cases) (auto simp: hexDigit_def)

lemma hexDigit_nonzero: "0 < d \<Longrightarrow> d < 16 \<Longrightarrow> hexDigit d \<in> set ''123456789ABCDEF''"
  by (drule lt16_cases) (auto simp: hexDigit_def)

lemma hexChar_digit:
  "c \<in> set ''0123456789ABCDEF'' \<Longrightarrow> hexCharValue c < 16 \<and> hexDigit (hexCharValue c) = c"
  by (auto simp: hexDigit_def hexCharValue_def)

lemma hexChar_nonzero: "c \<in> set ''123456789ABCDEF'' \<Longrightarrow> 0 < hexCharValue c"
  by (auto simp: hexCharValue_def)

lemma hexValue_snoc: "hexValue (s @ [c]) = 16 * hexValue s + hexCharValue c"
  by (simp add: hexValue_def)

lemma fmtHexNat_nonempty: "fmtHexNat n \<noteq> []"
  by (subst fmtHexNat.simps) simp

lemma fmtHexNat_digits: "set (fmtHexNat n) \<subseteq> set ''0123456789ABCDEF''"
proof (induction n rule: fmtHexNat.induct)
  case (1 n)
  show ?case
  proof (cases "n < 16")
    case True
    then show ?thesis using hexDigit_in [of n] by (subst fmtHexNat.simps) simp
  next
    case False
    have "n mod 16 < 16" by simp
    then have "hexDigit (n mod 16) \<in> set ''0123456789ABCDEF''" by (rule hexDigit_in)
    with False 1 show ?thesis by (subst fmtHexNat.simps) simp
  qed
qed

lemma fmtHexNat_value: "hexValue (fmtHexNat n) = n"
proof (induction n rule: fmtHexNat.induct)
  case (1 n)
  show ?case
  proof (cases "n < 16")
    case True
    then show ?thesis
      by (subst fmtHexNat.simps) (simp add: hexValue_def hexDigit_value)
  next
    case False
    with 1 have "hexValue (fmtHexNat (n div 16)) = n div 16" by simp
    with False show ?thesis
      by (subst fmtHexNat.simps) (simp add: hexValue_snoc hexDigit_value)
  qed
qed

lemma fmtHexNat_head: "0 < n \<Longrightarrow> hd (fmtHexNat n) \<in> set ''123456789ABCDEF''"
proof (induction n rule: fmtHexNat.induct)
  case (1 n)
  show ?case
  proof (cases "n < 16")
    case True
    with 1(2) show ?thesis using hexDigit_nonzero [of n] by (subst fmtHexNat.simps) simp
  next
    case False
    then have "0 < n div 16" by simp
    with False 1 have "hd (fmtHexNat (n div 16)) \<in> set ''123456789ABCDEF''" by simp
    with False show ?thesis
      by (subst fmtHexNat.simps) (simp add: fmtHexNat_nonempty)
  qed
qed

lemma fmtHexNat_zero: "fmtHexNat 0 = ''0''"
  by (subst fmtHexNat.simps) (simp add: hexDigit_def)

lemma fmtHexNat_is_upper_hex: "is_upper_hex (fmtHexNat n) n"
  unfolding is_upper_hex_def
  using fmtHexNat_nonempty [of n] fmtHexNat_digits [of n] fmtHexNat_value [of n]
    fmtHexNat_head [of n] fmtHexNat_zero
  by (cases "n = 0") auto

lemma hexValue_pos: "s \<noteq> [] \<Longrightarrow> hd s \<in> set ''123456789ABCDEF'' \<Longrightarrow> 0 < hexValue s"
proof (induction s rule: rev_induct)
  case Nil
  then show ?case by simp
next
  case (snoc c s)
  show ?case
  proof (cases "s = []")
    case True
    with snoc(3) show ?thesis using hexChar_nonzero [of c] by (simp add: hexValue_def)
  next
    case False
    with snoc have "0 < hexValue s" by simp
    then show ?thesis by (simp add: hexValue_snoc)
  qed
qed

lemma is_upper_hex_unique: "is_upper_hex s n \<Longrightarrow> s = fmtHexNat n"
proof (induction s arbitrary: n rule: rev_induct)
  case Nil
  then show ?case by (simp add: is_upper_hex_def)
next
  case (snoc c s)
  from snoc(2) have c: "c \<in> set ''0123456789ABCDEF''" and n: "n = 16 * hexValue s + hexCharValue c"
    and ds: "set s \<subseteq> set ''0123456789ABCDEF''"
    and hd: "s @ [c] = ''0'' \<or> hd (s @ [c]) \<in> set ''123456789ABCDEF''"
    by (auto simp: is_upper_hex_def hexValue_snoc)
  from c have cv: "hexCharValue c < 16" and cd: "hexDigit (hexCharValue c) = c"
    using hexChar_digit by blast+
  show ?case
  proof (cases "s = []")
    case True
    with n cv cd show ?thesis by (subst fmtHexNat.simps) (simp add: hexValue_def)
  next
    case False
    with hd have h: "hd s \<in> set ''123456789ABCDEF''" by auto
    with False have pos: "0 < hexValue s" by (rule hexValue_pos)
    from False ds h have "is_upper_hex s (hexValue s)" by (simp add: is_upper_hex_def)
    then have "s = fmtHexNat (hexValue s)" by (rule snoc.IH)
    moreover from n cv pos have "\<not> n < 16" "n div 16 = hexValue s" "n mod 16 = hexCharValue c"
      by auto
    ultimately show ?thesis using cd by (subst fmtHexNat.simps) simp
  qed
qed

lemma is_hex_of_fmtX: "is_hex_of (fmtX v) v"
  by (simp add: is_hex_of_def fmtX_def fmtHexNat_is_upper_hex)

lemma is_hex_of_unique: "is_hex_of s v \<Longrightarrow> s = fmtX v"
  by (cases s) (auto simp: is_hex_of_def fmtX_def dest: is_upper_hex_unique split: if_splits)

text \<open>
  Claim C7.  The rendered text of a range is \<open>#x\<close> followed by the uppercase, unpadded
  hexadecimal of its value when \<open>Begin\<close> and \<open>End\<close> are equal, and
  \<open>[#xHEX-#xHEX]\<close> with both bounds so written otherwise: whatever texts \<open>b\<close> and
  \<open>e\<close> are the uppercase unpadded hexadecimal of the two bounds, the rendering is exactly
  the one built from them.
\<close>

theorem Range_String_format:
  assumes "is_hex_of b (Begin r)" and "is_hex_of e (End r)"
  shows "Range_String r =
           (if Begin r = End r then ''#x'' @ b else ''[#x'' @ b @ ''-#x'' @ e @ '']'')"
  using is_hex_of_unique [OF assms(1)] is_hex_of_unique [OF assms(2)]
  by (simp add: Range_String_def)

theorem Range_String_format_witness:
  "is_hex_of ''41'' (Begin \<lparr>Begin = 65, End = 90\<rparr>) \<and> is_hex_of ''5A'' (End \<lparr>Begin = 65, End = 90\<rparr>)
   \<and> Range_String \<lparr>Begin = 65, End = 90\<rparr> = ''[#x41-#x5A]''
   \<and> is_hex_of ''10FFFF'' (Begin \<lparr>Begin = 1114111, End = 1114111\<rparr>)
   \<and> Range_String \<lparr>Begin = 1114111, End = 1114111\<rparr> = ''#x10FFFF''"
proof -
  have a: "is_hex_of ''41'' (Begin \<lparr>Begin = 65, End = 90\<rparr>)"
    by (simp add: is_hex_of_def is_upper_hex_def hexValue_def hexCharValue_def)
  have b: "is_hex_of ''5A'' (End \<lparr>Begin = 65, End = 90\<rparr>)"
    by (simp add: is_hex_of_def is_upper_hex_def hexValue_def hexCharValue_def)
  have c: "is_hex_of ''10FFFF'' (Begin \<lparr>Begin = 1114111, End = 1114111\<rparr>)"
    by (simp add: is_hex_of_def is_upper_hex_def hexValue_def hexCharValue_def)
  have d: "is_hex_of ''10FFFF'' (End \<lparr>Begin = 1114111, End = 1114111\<rparr>)"
    by (simp add: is_hex_of_def is_upper_hex_def hexValue_def hexCharValue_def)
  show ?thesis
    using a b c Range_String_format [OF a b] Range_String_format [OF c d] by simp
qed

section \<open>Joining and line layout\<close>

lemma join_sep_Cons: "join_sep sep (x # xs) = x @ concat (map (\<lambda>y. sep @ y) xs)"
  by (induction xs arbitrary: x) simp_all

lemma Ranges_String_loop_pos:
  "0 < i \<Longrightarrow> Ranges_String_loop rs i sb = sb @ concat (map (\<lambda>r. '' | '' @ Range_String r) rs)"
  by (induction rs arbitrary: i sb) simp_all

lemma Ranges_String_join: "Ranges_String rs = join_sep '' | '' (map Range_String rs)"
  by (cases rs) (simp_all add: Ranges_String_def Ranges_String_loop_pos join_sep_Cons comp_def)



lemma printLine_loop_pending:
  "printLine_loop rs i n col highCol (out0 @ '' |'') = (k, line) \<Longrightarrow> 0 < i \<Longrightarrow> rs \<noteq> [] \<Longrightarrow>
   i + length rs = n \<Longrightarrow>
   i \<le> k \<and> k \<le> n \<and>
   line = out0 @ concat (map (\<lambda>r. '' | '' @ Range_String r) (take (k - i) rs))
            @ (if k < n then '' |'' else [])"
proof (induction rs arbitrary: i col out0)
  case Nil
  then show ?case by simp
next
  case (Cons r rs)
  let ?str = "'' '' @ Range_String r @ (if int i < int n - 1 then '' |'' else [])"
  show ?case
  proof (cases "col + int (length ?str) > highCol")
    case True
    with Cons.prems show ?thesis by (auto simp: Let_def)
  next
    case False
    note fits = this
    show ?thesis
    proof (cases "rs = []")
      case True
      with Cons.prems fits show ?thesis by (auto simp: Let_def)
    next
      case False
      with Cons.prems have lt: "int i < int n - 1" by auto
      with Cons.prems fits
      have rec: "printLine_loop rs (i + 1) n (col + int (length ?str)) highCol
                   ((out0 @ '' | '' @ Range_String r) @ '' |'') = (k, line)"
        by (simp add: Let_def)
      from Cons.prems have "(i + 1) + length rs = n" by simp
      from Cons.IH [OF rec _ False this]
      have k: "i + 1 \<le> k" "k \<le> n"
        and t: "line = (out0 @ '' | '' @ Range_String r)
                  @ concat (map (\<lambda>r. '' | '' @ Range_String r) (take (k - (i + 1)) rs))
                  @ (if k < n then '' |'' else [])"
        by auto
      from k have "k - i = Suc (k - (i + 1))" by simp
      then have "take (k - i) (r # rs) = r # take (k - (i + 1)) rs" by simp
      with k t show ?thesis by simp
    qed
  qed
qed

lemma printLine_loop_top:
  "printLine_loop rs 0 (length rs) col highCol [] = (k, line) \<Longrightarrow>
   k \<le> length rs \<and>
   line = join_sep '' | '' (map Range_String (take k rs))
            @ (if 0 < k \<and> k < length rs then '' |'' else [])"
proof (cases rs)
  case Nil
  assume "printLine_loop rs 0 (length rs) col highCol [] = (k, line)"
  with Nil show ?thesis by auto
next
  case (Cons r rs')
  assume a: "printLine_loop rs 0 (length rs) col highCol [] = (k, line)"
  let ?str = "Range_String r @ (if rs' \<noteq> [] then '' |'' else [])"
  show ?thesis
  proof (cases "col + int (length ?str) > highCol")
    case True
    with a Cons show ?thesis by (auto simp: Let_def)
  next
    case False
    note fits = this
    show ?thesis
    proof (cases "rs' = []")
      case True
      with a Cons fits show ?thesis by (auto simp: Let_def)
    next
      case False
      with a Cons fits
      have rec: "printLine_loop rs' 1 (length rs) (col + int (length ?str)) highCol
                   (Range_String r @ '' |'') = (k, line)"
        by (simp add: Let_def)
      have "1 + length rs' = length rs" using Cons by simp
      from printLine_loop_pending [OF rec _ False this]
      have k: "1 \<le> k" "k \<le> length rs"
        and t: "line = Range_String r
                  @ concat (map (\<lambda>r. '' | '' @ Range_String r) (take (k - 1) rs'))
                  @ (if k < length rs then '' |'' else [])"
        by auto
      from k have "k = Suc (k - 1)" by simp
      then have "take k (r # rs') = r # take (k - 1) rs'" by (metis take_Suc_Cons)
      with Cons have "take k rs = r # take (k - 1) rs'" by simp
      with k t show ?thesis by (simp add: join_sep_Cons comp_def)
    qed
  qed
qed

lemma printLine_spec:
  assumes "printLine ranges lowCol highCol = (k, line)"
  shows "k \<le> length ranges \<and>
         line = join_sep '' | '' (map Range_String (take k ranges))
                  @ (if 0 < k \<and> k < length ranges then '' |'' else []) @ [CHR 0x0A]"
proof -
  obtain k' t' where e: "printLine_loop ranges 0 (length ranges) lowCol highCol [] = (k', t')"
    by (cases "printLine_loop ranges 0 (length ranges) lowCol highCol []") 
  with assms have "k = k'" "line = t' @ [CHR 0x0A]" by (auto simp: printLine_def Let_def)
  with printLine_loop_top [OF e] show ?thesis by simp
qed

lemma printRanges_loop_layout:
  "printRanges_loop out ranges leadup highCol = Some y \<Longrightarrow>
   (ranges \<noteq> [] \<longrightarrow> fst (printLine ranges (int (length leadup)) highCol) \<noteq> 0)
   \<and> (\<exists>groups. concat groups = ranges \<and> [] \<notin> set groups \<and> y = out @ layout groups leadup)"
proof (induction rule: printRanges_loop.raw_induct [rotated 1, consumes 1])
  case (1 f out ranges leadup highCol y)
  show ?case
  proof (cases "ranges = []")
    case True
    with 1(2) have "y = out" by simp
    with True show ?thesis by (intro conjI exI [of _ "[]"]) simp_all
  next
    case False
    obtain k line where pl: "printLine ranges (int (length leadup)) highCol = (k, line)"
      by (cases "printLine ranges (int (length leadup)) highCol")
    let ?pad = "replicate (length leadup) CHR '' ''"
    from False 1(2) pl have rec: "f (out @ leadup @ line) (drop k ranges) ?pad highCol = Some y"
      by (simp add: Let_def)
    from 1(1) [OF rec]
    have nz: "drop k ranges \<noteq> [] \<longrightarrow> fst (printLine (drop k ranges) (int (length ?pad)) highCol) \<noteq> 0"
      and ex: "\<exists>groups. concat groups = drop k ranges \<and> [] \<notin> set groups
                 \<and> y = (out @ leadup @ line) @ layout groups ?pad"
      by blast+
    have kpos: "0 < k"
    proof (rule ccontr)
      assume "\<not> 0 < k"
      then have "k = 0" by simp
      with nz False pl show False by simp
    qed
    from printLine_spec [OF pl]
    have kle: "k \<le> length ranges"
      and t2: "line = join_sep '' | '' (map Range_String (take k ranges))
                  @ (if 0 < k \<and> k < length ranges then '' |'' else []) @ [CHR 0x0A]"
      by auto
    from ex obtain groups where g: "concat groups = drop k ranges" "[] \<notin> set groups"
      "y = (out @ leadup @ line) @ layout groups ?pad" by blast
    have gnil: "groups = [] \<longleftrightarrow> \<not> k < length ranges"
    proof
      assume "groups = []"
      with g(1) show "\<not> k < length ranges" by simp
    next
      assume "\<not> k < length ranges"
      with g(1) have "concat groups = []" by simp
      with g(2) show "groups = []" by (cases groups) auto
    qed
    let ?gs = "take k ranges # groups"
    have "concat ?gs = ranges" using g(1) by simp
    moreover have "[] \<notin> set ?gs" using g(2) kpos False by auto
    moreover have "y = out @ layout ?gs leadup"
      using g(3) t2 kpos gnil by auto
    ultimately have "\<exists>groups. concat groups = ranges \<and> [] \<notin> set groups \<and> y = out @ layout groups leadup"
      by blast
    with kpos pl show ?thesis by simp
  qed
qed

lemma printRanges_loop_stuck:
  "ranges \<noteq> [] \<Longrightarrow> fst (printLine ranges (int (length leadup)) highCol) = 0 \<Longrightarrow>
   printRanges_loop out ranges leadup highCol = None"
  using printRanges_loop_layout [of out ranges leadup highCol]
  by (cases "printRanges_loop out ranges leadup highCol") auto

lemma printLine_loop_mono:
  "printLine_loop rs i n col highCol out = (k, line) \<Longrightarrow> i \<le> k"
proof (induction rs arbitrary: i col out)
  case Nil
  then show ?case by simp
next
  case (Cons r rs)
  let ?str = "(if i > 0 then '' '' else []) @ Range_String r
                @ (if int i < int n - 1 then '' |'' else [])"
  show ?case
  proof (cases "col + int (length ?str) > highCol")
    case True
    with Cons.prems show ?thesis by (simp add: Let_def)
  next
    case False
    with Cons.prems
    have "printLine_loop rs (i + 1) n (col + int (length ?str)) highCol (out @ ?str) = (k, line)"
      by (simp add: Let_def)
    from Cons.IH [OF this] show ?thesis by simp
  qed
qed

lemma printLine_progress:
  assumes "ranges \<noteq> []"
    and "lowCol + int (length (Range_String (hd ranges))) + 2 \<le> highCol"
  shows "0 < fst (printLine ranges lowCol highCol)"
proof -
  from assms(1) obtain r rs where rs: "ranges = r # rs" by (cases ranges) auto
  let ?str = "Range_String r @ (if int 0 < int (length ranges) - 1 then '' |'' else [])"
  have "length ?str \<le> length (Range_String r) + 2" by simp
  with assms(2) rs have fits: "\<not> lowCol + int (length ?str) > highCol" by auto
  obtain k line where
    e: "printLine_loop rs 1 (length ranges) (lowCol + int (length ?str)) highCol ?str = (k, line)"
    by (cases "printLine_loop rs 1 (length ranges) (lowCol + int (length ?str)) highCol ?str")
  from printLine_loop_mono [OF e] have "1 \<le> k" .
  moreover from fits e rs
  have "printLine_loop ranges 0 (length ranges) lowCol highCol [] = (k, line)"
    by (simp add: Let_def)
  ultimately show ?thesis by (simp add: printLine_def)
qed

lemma printRanges_loop_returns:
  "\<forall>r \<in> set ranges. int (length leadup) + int (length (Range_String r)) + 2 \<le> highCol \<Longrightarrow>
   \<exists>y. printRanges_loop out ranges leadup highCol = Some y"
proof (induction "length ranges" arbitrary: ranges leadup out rule: less_induct)
  case less
  show ?case
  proof (cases "ranges = []")
    case True
    then show ?thesis by (subst printRanges_loop.simps) simp
  next
    case False
    let ?res = "printLine ranges (int (length leadup)) highCol"
    let ?pad = "replicate (length leadup) CHR '' ''"
    from False less.prems have "int (length leadup) + int (length (Range_String (hd ranges))) + 2 \<le> highCol"
      by (cases ranges) auto
    from printLine_progress [OF False this] have pos: "0 < fst ?res" .
    with False have shorter: "length (drop (fst ?res) ranges) < length ranges" by simp
    have "\<forall>r \<in> set (drop (fst ?res) ranges).
            int (length ?pad) + int (length (Range_String r)) + 2 \<le> highCol"
      using less.prems by (auto dest: in_set_dropD)
    from less.hyps [OF shorter this]
    obtain y where "printRanges_loop (out @ leadup @ snd ?res) (drop (fst ?res) ranges) ?pad highCol = Some y"
      by blast
    with False show ?thesis by (subst printRanges_loop.simps) (simp add: Let_def)
  qed
qed

section \<open>Printing with a column budget\<close>

text \<open>
  Claim C1 (the code departs from it).  With a positive \<open>highCol\<close> the printer should
  place at least one range on every line and so come to an end.  \<open>printLine\<close> tests the
  column before it prints the first range as well: for the leadup \<open>char ::= \<close>, the one
  range \<open>[#x41-#x5A]\<close> and \<open>highCol = 10\<close> it uses no entry and prints an empty line,
  and \<open>printRanges\<close>, left with the same ranges, never returns.
\<close>

theorem printRanges_narrow_budget_diverges:
  "printLine [\<lparr>Begin = 65, End = 90\<rparr>] (int (length ''char ::= '')) 10 = (0, [CHR 0x0A])
   \<and> printRanges [\<lparr>Begin = 65, End = 90\<rparr>] ''char ::= '' 10 = None"
proof -
  have pl: "printLine [\<lparr>Begin = 65, End = 90\<rparr>] (int (length ''char ::= '')) 10 = (0, [CHR 0x0A])"
    by (simp add: printLine_def Range_String_def)
  then have "printRanges_loop [] [\<lparr>Begin = 65, End = 90\<rparr>] ''char ::= '' 10 = None"
    by (intro printRanges_loop_stuck) simp_all
  with pl show ?thesis by (simp add: printRanges_def)
qed

text \<open>
  Claim C9, amended.  With a positive \<open>highCol\<close>, the output the printer returns is a
  page of lines over a split of the ranges into non-empty groups of neighbours: on a
  line the ranges are joined by \<open> | \<close> (a space before all but the first), and the
  trailing \<open> |\<close> follows every range but the last of the whole sequence, so every line
  except the final one ends in \<open> |\<close> and nothing follows the final range.  The printer
  does return when every range, with the leadup before it and a separator behind it,
  stays within \<open>highCol\<close>.
\<close>

theorem printRanges_wrapped_layout:
  assumes "0 < highCol"
  shows "(printRanges ranges leadup highCol = Some y \<longrightarrow>
            (\<exists>groups. concat groups = ranges \<and> [] \<notin> set groups \<and> y = layout groups leadup))
         \<and> ((\<forall>r \<in> set ranges. int (length leadup) + int (length (Range_String r)) + 2 \<le> highCol)
              \<longrightarrow> (\<exists>z. printRanges ranges leadup highCol = Some z))"
proof (intro conjI impI)
  assume "printRanges ranges leadup highCol = Some y"
  with assms have "printRanges_loop [] ranges leadup highCol = Some y"
    by (simp add: printRanges_def)
  from printRanges_loop_layout [OF this]
  show "\<exists>groups. concat groups = ranges \<and> [] \<notin> set groups \<and> y = layout groups leadup"
    by simp
next
  assume "\<forall>r \<in> set ranges. int (length leadup) + int (length (Range_String r)) + 2 \<le> highCol"
  from printRanges_loop_returns [OF this, of "[]"] assms
  show "\<exists>z. printRanges ranges leadup highCol = Some z"
    by (simp add: printRanges_def)
qed

theorem printRanges_wrapped_layout_witness:
  "(0::int) < 20
   \<and> printRanges [\<lparr>Begin = 65, End = 90\<rparr>, \<lparr>Begin = 97, End = 97\<rparr>, \<lparr>Begin = 192, End = 255\<rparr>] ''c ::= '' 20
       = Some (''c ::= [#x41-#x5A] |'' @ [CHR 0x0A] @ ''      #x61 |'' @ [CHR 0x0A]
               @ ''      [#xC0-#xFF]'' @ [CHR 0x0A])
   \<and> (\<exists>groups. concat groups = [\<lparr>Begin = 65, End = 90\<rparr>, \<lparr>Begin = 97, End = 97\<rparr>, \<lparr>Begin = 192, End = 255\<rparr>]
         \<and> [] \<notin> set groups
         \<and> ''c ::= [#x41-#x5A] |'' @ [CHR 0x0A] @ ''      #x61 |'' @ [CHR 0x0A]
               @ ''      [#xC0-#xFF]'' @ [CHR 0x0A] = layout groups ''c ::= '')"
proof -
  have p: "printRanges [\<lparr>Begin = 65, End = 90\<rparr>, \<lparr>Begin = 97, End = 97\<rparr>, \<lparr>Begin = 192, End = 255\<rparr>] ''c ::= '' 20
       = Some (''c ::= [#x41-#x5A] |'' @ [CHR 0x0A] @ ''      #x61 |'' @ [CHR 0x0A]
               @ ''      [#xC0-#xFF]'' @ [CHR 0x0A])"
    by (simp add: printRanges_def printRanges_loop.simps printLine_def Range_String_def
        fmtX_def fmtHexNat.simps hexDigit_def)
  have h: "(0::int) < 20" by simp
  from conjunct1 [OF printRanges_wrapped_layout [OF h], rule_format, OF p] h p
  show ?thesis by (intro conjI)
qed

theorem printRanges_wrapped_counterexample:
  "printLine [\<lparr>Begin = 65, End = 65\<rparr>, \<lparr>Begin = 66, End = 66\<rparr>] 0 6 = (1, ''#x41 |'' @ [CHR 0x0A])
   \<and> printRanges [\<lparr>Begin = 65, End = 65\<rparr>, \<lparr>Begin = 66, End = 66\<rparr>] [] 6
       = Some (''#x41 |'' @ [CHR 0x0A] @ ''#x42'' @ [CHR 0x0A])"
  by (simp add: printRanges_def printRanges_loop.simps printLine_def Range_String_def
      fmtX_def fmtHexNat.simps hexDigit_def)

text \<open>
  Claim C8.  With \<open>highCol \<le> 0\<close> the whole sequence is printed as one line: the leadup,
  then the ranges joined by \<open> | \<close> with nothing after the last, then the line end.
\<close>

theorem printRanges_unwrapped:
  "highCol \<le> 0 \<Longrightarrow>
   printRanges ranges leadup highCol
     = Some (leadup @ join_sep '' | '' (map Range_String ranges) @ [CHR 0x0A])"
  by (simp add: printRanges_def Ranges_String_join)

theorem printRanges_unwrapped_witness:
  "(0::int) \<le> 0 \<and>
   printRanges [\<lparr>Begin = 65, End = 90\<rparr>, \<lparr>Begin = 97, End = 97\<rparr>, \<lparr>Begin = 192, End = 255\<rparr>] ''c ::= '' 0
     = Some (''c ::= [#x41-#x5A] | #x61 | [#xC0-#xFF]'' @ [CHR 0x0A])"
  using printRanges_unwrapped [of 0 "[\<lparr>Begin = 65, End = 90\<rparr>, \<lparr>Begin = 97, End = 97\<rparr>, \<lparr>Begin = 192, End = 255\<rparr>]" "''c ::= ''"]
  by (simp add: Range_String_def fmtX_def fmtHexNat.simps hexDigit_def)

section \<open>Nothing matched\<close>

lemma query_loop_nomatch:
  "\<forall>cp \<in> set cps. \<not> (inc cp \<and> \<not> exc cp) \<Longrightarrow>
   query_loop inc exc cps i False st rs = (False, st, rs)"
  by (induction cps arbitrary: i) auto

text \<open>
  Claim C6, amended.  An empty table, or a query that matches no record, yields the empty
  range sequence and no error.  With a positive \<open>highCol\<close> nothing is printed; with
  \<open>highCol \<le> 0\<close> the unwrapped branch prints one line holding the leadup alone.
\<close>

theorem query_nothing_matched:
  assumes "\<forall>cp \<in> set allCodepoints. \<not> (inc cp \<and> \<not> exc cp)"
  shows "query allCodepoints inc exc = []
         \<and> printRanges (query allCodepoints inc exc) leadup highCol
             = Some (if highCol \<le> 0 then leadup @ [CHR 0x0A] else [])"
proof -
  from assms have q: "query allCodepoints inc exc = []"
    by (simp add: query_def query_loop_nomatch)
  then show ?thesis
    by (simp add: printRanges_def printRanges_loop.simps Ranges_String_def)
qed

theorem query_nothing_matched_witness:
  "query [\<lparr>Codepoint = 0, MajorCategory = CHR ''C'', MinorCategory = CHR ''c''\<rparr>]
        (anyMatcher [\<lambda>cp. MajorCategory cp = CHR ''L'']) (anyMatcher []) = []
   \<and> printRanges (query [\<lparr>Codepoint = 0, MajorCategory = CHR ''C'', MinorCategory = CHR ''c''\<rparr>]
        (anyMatcher [\<lambda>cp. MajorCategory cp = CHR ''L'']) (anyMatcher [])) ''c ::= '' 80 = Some []"
proof -
  have h: "\<forall>cp \<in> set [\<lparr>Codepoint = 0, MajorCategory = CHR ''C'', MinorCategory = CHR ''c''\<rparr>].
      \<not> (anyMatcher [\<lambda>cp. MajorCategory cp = CHR ''L''] cp \<and> \<not> anyMatcher [] cp)"
    by (simp add: anyMatcher_def)
  note r = query_nothing_matched [OF h, of "''c ::= ''" 80]
  from r have a: "query [\<lparr>Codepoint = 0, MajorCategory = CHR ''C'', MinorCategory = CHR ''c''\<rparr>]
        (anyMatcher [\<lambda>cp. MajorCategory cp = CHR ''L'']) (anyMatcher []) = []"
    by (rule conjunct1)
  from conjunct2 [OF r]
  have b: "printRanges (query [\<lparr>Codepoint = 0, MajorCategory = CHR ''C'', MinorCategory = CHR ''c''\<rparr>]
        (anyMatcher [\<lambda>cp. MajorCategory cp = CHR ''L'']) (anyMatcher [])) ''c ::= '' 80 = Some []"
    by simp
  from a b show ?thesis by (intro conjI)
qed

theorem query_nothing_matched_counterexample:
  "query [] (anyMatcher []) (anyMatcher []) = []
   \<and> printRanges (query [] (anyMatcher []) (anyMatcher [])) ''c ::= '' 0
       = Some (''c ::= '' @ [CHR 0x0A])"
  by (simp add: query_def printRanges_def Ranges_String_def)

section \<open>Properties of the range scanner\<close>

lemma rune_id: "- 2147483648 \<le> x \<Longrightarrow> x < 2147483648 \<Longrightarrow> rune x = x"
  by (simp add: rune_def)

lemma dense_from_nth: "dense_from lo cps \<Longrightarrow> i < length cps \<Longrightarrow> Codepoint (cps ! i) = lo + int i"
proof (induction cps arbitrary: lo i)
  case Nil
  then show ?case by simp
next
  case (Cons cp cps)
  then show ?case by (cases i) auto
qed

lemma scan_inv_init: "scan_inv m [] False 0 []"
  by (simp add: scan_inv_def)

lemma nth_snoc_int:
  "0 \<le> j \<Longrightarrow> j < int (length pre) \<Longrightarrow> (pre @ [cp]) ! nat j = pre ! nat j"
proof -
  assume "0 \<le> j" and "j < int (length pre)"
  then have "nat j < length pre" by linarith
  then show ?thesis by (simp add: nth_append)
qed

lemma scan_inv_match:
  assumes inv: "scan_inv m pre inRange startRange ranges" and "m cp"
    and len: "int (length pre) < 2147483648"
  shows "scan_inv m (pre @ [cp]) True
           (if \<not> inRange then rune (int (length pre)) else startRange) ranges"
proof -
  let ?n = "int (length pre)"
  let ?st = "if \<not> inRange then rune ?n else startRange"
  have st: "?st = (if inRange then startRange else ?n)"
    using len by (simp add: rune_id)
  have a: "\<forall>r \<in> set ranges. 0 \<le> Begin r \<and> Begin r \<le> End r \<and> End r + 1 < ?st"
    using inv unfolding st by (auto simp: scan_inv_def)
  have b: "sorted_wrt (\<lambda>r s. End r + 1 < Begin s) ranges"
    using inv by (simp add: scan_inv_def)
  have c: "0 \<le> ?st \<and> ?st < int (length (pre @ [cp]))"
    using inv unfolding st by (auto simp: scan_inv_def)
  have old: "\<And>j. ((\<exists>r \<in> set ranges. Begin r \<le> j \<and> j \<le> End r)
               \<or> (inRange \<and> startRange \<le> j \<and> j < ?n))
            \<longleftrightarrow> (0 \<le> j \<and> j < ?n \<and> m (pre ! nat j))"
    using inv unfolding scan_inv_def by blast
  have d: "((\<exists>r \<in> set ranges. Begin r \<le> j \<and> j \<le> End r)
               \<or> (True \<and> ?st \<le> j \<and> j < int (length (pre @ [cp]))))
            \<longleftrightarrow> (0 \<le> j \<and> j < int (length (pre @ [cp])) \<and> m ((pre @ [cp]) ! nat j))" for j
  proof (cases "j = ?n")
    case True
    have "\<not> (\<exists>r \<in> set ranges. Begin r \<le> j \<and> j \<le> End r)" if "\<not> ?st \<le> j"
      using that c True by (auto simp: st split: if_splits)
    with True \<open>m cp\<close> c show ?thesis by (auto simp: st)
  next
    case False
    show ?thesis
    proof (cases "0 \<le> j \<and> j < ?n")
      case True
      then have "(pre @ [cp]) ! nat j = pre ! nat j" by (simp add: nth_snoc_int)
      with True old [of j] show ?thesis unfolding st by auto
    next
      case F2: False
      with False old [of j] c show ?thesis unfolding st by auto
    qed
  qed
  show ?thesis
    unfolding scan_inv_def using a b c d by simp
qed

lemma scan_inv_nomatch:
  assumes inv: "scan_inv m pre inRange startRange ranges" and "\<not> m cp"
    and len: "int (length pre) < 2147483648"
  shows "scan_inv m (pre @ [cp]) False startRange
           (if inRange then ranges @ [\<lparr>Begin = startRange, End = rune (int (length pre) - 1)\<rparr>]
            else ranges)"
proof -
  let ?n = "int (length pre)"
  let ?rs = "if inRange then ranges @ [\<lparr>Begin = startRange, End = rune (?n - 1)\<rparr>] else ranges"
  have rs: "?rs = (if inRange then ranges @ [\<lparr>Begin = startRange, End = ?n - 1\<rparr>] else ranges)"
    using len by (simp add: rune_id)
  have a: "\<forall>r \<in> set ?rs. 0 \<le> Begin r \<and> Begin r \<le> End r \<and> End r + 1 < int (length (pre @ [cp]))"
    using inv unfolding rs by (auto simp: scan_inv_def split: if_splits)
  have b: "sorted_wrt (\<lambda>r s. End r + 1 < Begin s) ?rs"
    using inv unfolding rs by (auto simp: scan_inv_def sorted_wrt_append)
  have old: "\<And>j. ((\<exists>r \<in> set ranges. Begin r \<le> j \<and> j \<le> End r)
               \<or> (inRange \<and> startRange \<le> j \<and> j < ?n))
            \<longleftrightarrow> (0 \<le> j \<and> j < ?n \<and> m (pre ! nat j))"
    using inv unfolding scan_inv_def by blast
  have cov: "(\<exists>r \<in> set ?rs. Begin r \<le> j \<and> j \<le> End r)
       \<longleftrightarrow> ((\<exists>r \<in> set ranges. Begin r \<le> j \<and> j \<le> End r)
               \<or> (inRange \<and> startRange \<le> j \<and> j < ?n))" for j
    unfolding rs by auto
  have d: "((\<exists>r \<in> set ?rs. Begin r \<le> j \<and> j \<le> End r)
               \<or> (False \<and> startRange \<le> j \<and> j < int (length (pre @ [cp]))))
            \<longleftrightarrow> (0 \<le> j \<and> j < int (length (pre @ [cp])) \<and> m ((pre @ [cp]) ! nat j))" for j
  proof (cases "j = ?n")
    case True
    then have "\<not> (0 \<le> j \<and> j < ?n \<and> m (pre ! nat j))" by simp
    with old [of j] cov [of j] True \<open>\<not> m cp\<close> show ?thesis by simp
  next
    case False
    show ?thesis
    proof (cases "0 \<le> j \<and> j < ?n")
      case True
      then have "(pre @ [cp]) ! nat j = pre ! nat j" by (simp add: nth_snoc_int)
      with True old [of j] cov [of j] show ?thesis by simp
    next
      case F2: False
      with False old [of j] cov [of j] show ?thesis by auto
    qed
  qed
  show ?thesis
    unfolding scan_inv_def using a b d by simp
qed

lemma query_loop_inv:
  "scan_inv (\<lambda>cp. inc cp \<and> \<not> exc cp) pre inRange startRange ranges \<Longrightarrow>
   int (length pre) + int (length cps) \<le> 2147483648 \<Longrightarrow>
   query_loop inc exc cps (length pre) inRange startRange ranges = (inRange', startRange', ranges') \<Longrightarrow>
   scan_inv (\<lambda>cp. inc cp \<and> \<not> exc cp) (pre @ cps) inRange' startRange' ranges'"
proof (induction cps arbitrary: pre inRange startRange ranges)
  case Nil
  then show ?case by simp
next
  case (Cons cp cps)
  let ?m = "\<lambda>cp. inc cp \<and> \<not> exc cp"
  from Cons.prems(2) have len: "int (length pre) < 2147483648"
    and len': "int (length (pre @ [cp])) + int (length cps) \<le> 2147483648" by simp_all
  have l1: "length pre + 1 = length (pre @ [cp])" by simp
  show ?case
  proof (cases "?m cp")
    case True
    from scan_inv_match [OF Cons.prems(1) True len]
    have i: "scan_inv ?m (pre @ [cp]) True
           (if \<not> inRange then rune (int (length pre)) else startRange) ranges" .
    from Cons.prems(3) True
    have "query_loop inc exc cps (length (pre @ [cp])) True
            (if \<not> inRange then rune (int (length pre)) else startRange) ranges
          = (inRange', startRange', ranges')"
      unfolding l1 [symmetric] by simp
    from Cons.IH [OF i len' this] show ?thesis by simp
  next
    case False
    from scan_inv_nomatch [OF Cons.prems(1) False len]
    have i: "scan_inv ?m (pre @ [cp]) False startRange
           (if inRange then ranges @ [\<lparr>Begin = startRange, End = rune (int (length pre) - 1)\<rparr>]
            else ranges)" .
    from Cons.prems(3) False
    have "query_loop inc exc cps (length (pre @ [cp])) False startRange
           (if inRange then ranges @ [\<lparr>Begin = startRange, End = rune (int (length pre) - 1)\<rparr>]
            else ranges)
          = (inRange', startRange', ranges')"
      unfolding l1 [symmetric] by auto
    from Cons.IH [OF i len' this] show ?thesis by simp
  qed
qed


lemma query_inv:
  assumes "int (length allCodepoints) \<le> 2147483648"
    and "query_loop inc exc allCodepoints 0 False 0 [] = (inRange, startRange, ranges)"
  shows "scan_inv (\<lambda>cp. inc cp \<and> \<not> exc cp) allCodepoints inRange startRange ranges"
proof -
  have l: "(0::nat) = length ([] :: Codepoint list)" by simp
  have "scan_inv (\<lambda>cp. inc cp \<and> \<not> exc cp) ([] @ allCodepoints) inRange startRange ranges"
    by (rule query_loop_inv [OF scan_inv_init]) (use assms in simp_all)
  then show ?thesis by simp
qed

lemma table_from_last:
  assumes "table_from lo allCodepoints" and "allCodepoints \<noteq> []"
  shows "Codepoint (allCodepoints ! (length allCodepoints - 1)) = lo + int (length allCodepoints) - 1"
proof -
  from assms(2) have l: "length allCodepoints - 1 < length allCodepoints" by simp
  from assms(1) have "dense_from lo allCodepoints" by (simp add: table_from_def)
  from dense_from_nth [OF this l]
  have "Codepoint (allCodepoints ! (length allCodepoints - 1))
      = lo + int (length allCodepoints - 1)" .
  moreover from assms(2) have "int (length allCodepoints - 1) = int (length allCodepoints) - 1"
    by (cases allCodepoints) simp_all
  ultimately show ?thesis by simp
qed

lemma query_shape:
  assumes t: "table_from lo allCodepoints"
  shows "(\<forall>r \<in> set (query allCodepoints inc exc). 0 \<le> Begin r \<and> Begin r \<le> End r)
         \<and> sorted_wrt (\<lambda>r s. End r + 1 < Begin s) (query allCodepoints inc exc)"
proof -
  obtain inRange startRange ranges
    where q: "query_loop inc exc allCodepoints 0 False 0 [] = (inRange, startRange, ranges)"
    by (cases "query_loop inc exc allCodepoints 0 False 0 []")
  from t have len: "int (length allCodepoints) \<le> 2147483648" and lo: "0 \<le> lo"
    by (simp_all add: table_from_def)
  note inv = query_inv [OF len q]
  show ?thesis
  proof (cases inRange)
    case False
    with q have "query allCodepoints inc exc = ranges" by (simp add: query_def)
    with inv show ?thesis by (auto simp: scan_inv_def)
  next
    case True
    with inv have st: "0 \<le> startRange" "startRange < int (length allCodepoints)"
      by (simp_all add: scan_inv_def)
    then have ne: "allCodepoints \<noteq> []" by auto
    let ?e = "Codepoint (allCodepoints ! (length allCodepoints - 1))"
    from table_from_last [OF t ne] lo st have e: "startRange \<le> ?e" by simp
    from q True have qq: "query allCodepoints inc exc = ranges @ [\<lparr>Begin = startRange, End = ?e\<rparr>]"
      by (simp add: query_def)
    from inv True have a: "\<forall>r \<in> set ranges. 0 \<le> Begin r \<and> Begin r \<le> End r \<and> End r + 1 < startRange"
      and b: "sorted_wrt (\<lambda>r s. End r + 1 < Begin s) ranges"
      by (simp_all add: scan_inv_def)
    from a b e st show ?thesis unfolding qq by (auto simp: sorted_wrt_append)
  qed
qed

lemma query_cover:
  assumes t: "table_from 0 allCodepoints"
  shows "(\<exists>r \<in> set (query allCodepoints inc exc). Begin r \<le> j \<and> j \<le> End r)
         \<longleftrightarrow> (0 \<le> j \<and> j < int (length allCodepoints)
              \<and> inc (allCodepoints ! nat j) \<and> \<not> exc (allCodepoints ! nat j))"
proof -
  obtain inRange startRange ranges
    where q: "query_loop inc exc allCodepoints 0 False 0 [] = (inRange, startRange, ranges)"
    by (cases "query_loop inc exc allCodepoints 0 False 0 []")
  from t have len: "int (length allCodepoints) \<le> 2147483648"
    by (simp_all add: table_from_def)
  note inv = query_inv [OF len q]
  then have cov: "((\<exists>r \<in> set ranges. Begin r \<le> j \<and> j \<le> End r)
               \<or> (inRange \<and> startRange \<le> j \<and> j < int (length allCodepoints)))
            \<longleftrightarrow> (0 \<le> j \<and> j < int (length allCodepoints)
                 \<and> inc (allCodepoints ! nat j) \<and> \<not> exc (allCodepoints ! nat j))"
    unfolding scan_inv_def by blast
  show ?thesis
  proof (cases inRange)
    case False
    with q have "query allCodepoints inc exc = ranges" by (simp add: query_def)
    with cov False show ?thesis by simp
  next
    case True
    with inv have st: "0 \<le> startRange" "startRange < int (length allCodepoints)"
      by (simp_all add: scan_inv_def)
    then have ne: "allCodepoints \<noteq> []" by auto
    let ?e = "Codepoint (allCodepoints ! (length allCodepoints - 1))"
    from table_from_last [OF t ne] have e: "?e = int (length allCodepoints) - 1" by simp
    from q True have qq: "query allCodepoints inc exc = ranges @ [\<lparr>Begin = startRange, End = ?e\<rparr>]"
      by (simp add: query_def)
    have "(\<exists>r \<in> set (query allCodepoints inc exc). Begin r \<le> j \<and> j \<le> End r)
          \<longleftrightarrow> ((\<exists>r \<in> set ranges. Begin r \<le> j \<and> j \<le> End r)
               \<or> (startRange \<le> j \<and> j < int (length allCodepoints)))"
      unfolding qq e by auto
    with cov True show ?thesis by simp
  qed
qed

lemma anyMatcher_iff: "anyMatcher ms cp \<longleftrightarrow> (\<exists>m \<in> set ms. m cp)"
  by (simp add: anyMatcher_def list_ex_iff)

text \<open>
  Where the scan agrees with its contract: on the unrestricted table, where position
  \<open>N\<close> holds the record of scalar value \<open>N\<close>, the ranges cover the codepoint of a record
  exactly when some inclusive matcher accepts the record and no exclusive matcher does;
  and without a \<open>-range\<close> bound (\<open>lowCP = 0\<close>, \<open>highCP = 0x10ffff\<close>) there is no
  exclusive matcher, so a record is covered exactly when some inclusive matcher accepts it.
\<close>

lemma query_covers_unrestricted:
  assumes "table_from 0 allCodepoints" and "cp \<in> set allCodepoints"
  shows "((\<exists>r \<in> set (query allCodepoints (anyMatcher inclusive) (anyMatcher exclusive)).
              Begin r \<le> Codepoint cp \<and> Codepoint cp \<le> End r)
           \<longleftrightarrow> ((\<exists>m \<in> set inclusive. m cp) \<and> \<not> (\<exists>m \<in> set exclusive. m cp)))
         \<and> ((\<exists>r \<in> set (query allCodepoints (anyMatcher inclusive)
                          (anyMatcher (exclusiveMatchers 0 0x10ffff))).
              Begin r \<le> Codepoint cp \<and> Codepoint cp \<le> End r)
           \<longleftrightarrow> (\<exists>m \<in> set inclusive. m cp))"
proof -
  from assms(2) obtain i where i: "i < length allCodepoints" "allCodepoints ! i = cp"
    by (auto simp: in_set_conv_nth)
  with assms(1) have c: "Codepoint cp = int i"
    using dense_from_nth [of 0 allCodepoints i] by (simp add: table_from_def)
  have none: "exclusiveMatchers 0 0x10ffff = []" by (simp add: exclusiveMatchers_def)
  from i c show ?thesis
    unfolding query_cover [OF assms(1)] none by (simp add: anyMatcher_iff)
qed

text \<open>
  Claim C3 (the code departs from it).  The ranges of the scan should cover the codepoint
  of a record exactly when some inclusive matcher accepts the record and no exclusive
  matcher does.  \<open>query\<close> opens and closes a run with the position \<open>i\<close> of the record,
  and closes the last run with the \<open>Codepoint\<close> of the last record; the two agree only on
  a table that starts at scalar value 0.  On the table that \<open>generateCode\<close> builds for
  \<open>-range=0x40-0x42\<close> (the records of \<open>U+0040\<close>, category \<open>Po\<close>, and \<open>U+0041\<close>,
  category \<open>Lu\<close>), with no \<open>-range\<close> bound on the query, \<open>cat=L\<close> gives the range
  \<open>[#x1-#x41]\<close>, which covers the unmatched \<open>U+0040\<close>, and \<open>cat=P\<close> gives \<open>#x0\<close>,
  which does not cover the matched \<open>U+0040\<close>.
\<close>

theorem query_restricted_table_positions:
  "table_from 64 [\<lparr>Codepoint = 64, MajorCategory = CHR ''P'', MinorCategory = CHR ''o''\<rparr>,
                  \<lparr>Codepoint = 65, MajorCategory = CHR ''L'', MinorCategory = CHR ''u''\<rparr>]
   \<and> query [\<lparr>Codepoint = 64, MajorCategory = CHR ''P'', MinorCategory = CHR ''o''\<rparr>,
            \<lparr>Codepoint = 65, MajorCategory = CHR ''L'', MinorCategory = CHR ''u''\<rparr>]
       (anyMatcher [\<lambda>cp. MajorCategory cp = CHR ''L''])
       (anyMatcher (exclusiveMatchers 0 0x10ffff)) = [\<lparr>Begin = 1, End = 65\<rparr>]
   \<and> main_query [\<lparr>Codepoint = 64, MajorCategory = CHR ''P'', MinorCategory = CHR ''o''\<rparr>,
                 \<lparr>Codepoint = 65, MajorCategory = CHR ''L'', MinorCategory = CHR ''u''\<rparr>]
       0 0x10ffff [] 80 ''cat=L'' = Inr ([], Some (''[#x1-#x41]'' @ [CHR 0x0A]))
   \<and> query [\<lparr>Codepoint = 64, MajorCategory = CHR ''P'', MinorCategory = CHR ''o''\<rparr>,
            \<lparr>Codepoint = 65, MajorCategory = CHR ''L'', MinorCategory = CHR ''u''\<rparr>]
       (anyMatcher [\<lambda>cp. MajorCategory cp = CHR ''P''])
       (anyMatcher (exclusiveMatchers 0 0x10ffff)) = [\<lparr>Begin = 0, End = 0\<rparr>]
   \<and> main_query [\<lparr>Codepoint = 64, MajorCategory = CHR ''P'', MinorCategory = CHR ''o''\<rparr>,
                 \<lparr>Codepoint = 65, MajorCategory = CHR ''L'', MinorCategory = CHR ''u''\<rparr>]
       0 0x10ffff [] 80 ''cat=P'' = Inr ([], Some (''#x0'' @ [CHR 0x0A]))"
  by (simp add: table_from_def main_query_def parseMatchers_def query_def anyMatcher_def
      exclusiveMatchers_def rune_def printRanges_def printRanges_loop.simps printLine_def
      Range_String_def fmtX_def fmtHexNat.simps hexDigit_def)

text \<open>
  Claim C4.  On every table that holds consecutive scalar values in ascending order
  (from any first value \<open>lo\<close>), every emitted range has \<open>Begin \<le> End\<close>, the sequence is
  strictly ascending by \<open>Begin\<close>, and a later range begins more than one above the end of
  every earlier one: the ranges neither overlap nor touch.
\<close>

theorem query_ranges_separated:
  assumes "table_from lo allCodepoints"
  shows "(\<forall>r \<in> set (query allCodepoints inc exc). Begin r \<le> End r)
         \<and> sorted_wrt (\<lambda>r s. Begin r < Begin s) (query allCodepoints inc exc)
         \<and> sorted_wrt (\<lambda>r s. End r + 1 < Begin s) (query allCodepoints inc exc)"
proof -
  note s = query_shape [OF assms, of inc exc]
  then have a: "\<forall>r \<in> set (query allCodepoints inc exc). Begin r \<le> End r"
    and b: "sorted_wrt (\<lambda>r s. End r + 1 < Begin s) (query allCodepoints inc exc)"
    by simp_all
  have "sorted_wrt (\<lambda>r s. Begin r < Begin s) (query allCodepoints inc exc)"
    by (rule sorted_wrt_mono_rel [OF _ b]) (use a in force)
  with a b show ?thesis by simp
qed

theorem query_ranges_separated_witness:
  "table_from 65 [\<lparr>Codepoint = 65, MajorCategory = CHR ''L'', MinorCategory = CHR ''u''\<rparr>,
                  \<lparr>Codepoint = 66, MajorCategory = CHR ''N'', MinorCategory = CHR ''d''\<rparr>,
                  \<lparr>Codepoint = 67, MajorCategory = CHR ''L'', MinorCategory = CHR ''l''\<rparr>]
   \<and> sorted_wrt (\<lambda>r s. End r + 1 < Begin s)
       (query [\<lparr>Codepoint = 65, MajorCategory = CHR ''L'', MinorCategory = CHR ''u''\<rparr>,
               \<lparr>Codepoint = 66, MajorCategory = CHR ''N'', MinorCategory = CHR ''d''\<rparr>,
               \<lparr>Codepoint = 67, MajorCategory = CHR ''L'', MinorCategory = CHR ''l''\<rparr>]
          (anyMatcher [\<lambda>cp. MajorCategory cp = CHR ''L'']) (anyMatcher []))"
proof -
  let ?T = "[\<lparr>Codepoint = 65, MajorCategory = CHR ''L'', MinorCategory = CHR ''u''\<rparr>,
             \<lparr>Codepoint = 66, MajorCategory = CHR ''N'', MinorCategory = CHR ''d''\<rparr>,
             \<lparr>Codepoint = 67, MajorCategory = CHR ''L'', MinorCategory = CHR ''l''\<rparr>]"
  have t: "table_from 65 ?T" by (simp add: table_from_def)
  from query_ranges_separated [OF t, of "anyMatcher [\<lambda>cp. MajorCategory cp = CHR ''L'']" "anyMatcher []"]
  have "sorted_wrt (\<lambda>r s. End r + 1 < Begin s)
          (query ?T (anyMatcher [\<lambda>cp. MajorCategory cp = CHR ''L'']) (anyMatcher []))"
    by (elim conjE)
  with t show ?thesis by (intro conjI)
qed

section \<open>Properties of the matcher compiler\<close>

lemma first_cases:
  obtains "b < 0x80" "first b = AS"
  | "(0x80 \<le> b \<and> b < 0xC2) \<or> 0xF4 < b" "first b = XX"
  | "0xC2 \<le> b" "b \<le> 0xDF" "first b = Seq 2 0x80 0xBF"
  | "b = 0xE0" "first b = Seq 3 0xA0 0xBF"
  | "0xE1 \<le> b" "b \<le> 0xEC" "first b = Seq 3 0x80 0xBF"
  | "b = 0xED" "first b = Seq 3 0x80 0x9F"
  | "0xEE \<le> b" "b \<le> 0xEF" "first b = Seq 3 0x80 0xBF"
  | "b = 0xF0" "first b = Seq 4 0x90 0xBF"
  | "0xF1 \<le> b" "b \<le> 0xF3" "first b = Seq 4 0x80 0xBF"
  | "b = 0xF4" "first b = Seq 4 0x80 0x8F"
proof -
  have "b < 0x80 \<or> ((0x80 \<le> b \<and> b < 0xC2) \<or> 0xF4 < b) \<or> (0xC2 \<le> b \<and> b \<le> 0xDF) \<or> b = 0xE0
      \<or> (0xE1 \<le> b \<and> b \<le> 0xEC) \<or> b = 0xED \<or> (0xEE \<le> b \<and> b \<le> 0xEF) \<or> b = 0xF0
      \<or> (0xF1 \<le> b \<and> b \<le> 0xF3) \<or> b = 0xF4"
    by arith
  then show ?thesis
    by (elim disjE conjE) (rule that; simp add: first_def)+
qed

lemma utf8_wf_nth:
  "utf8_wf (map of_char s) \<longleftrightarrow>
     length s \<ge> 1 \<and>
     (row1 (of_char (s ! 0))
      \<or> (length s \<ge> 2 \<and> row2 (of_char (s ! 0)) (of_char (s ! 1)))
      \<or> (length s \<ge> 3 \<and> row3 (of_char (s ! 0)) (of_char (s ! 1)) (of_char (s ! 2)))
      \<or> (length s \<ge> 4 \<and> row4 (of_char (s ! 0)) (of_char (s ! 1)) (of_char (s ! 2)) (of_char (s ! 3))))"
proof (cases s)
  case Nil
  then show ?thesis by simp
next
  case s1: (Cons c0 t1)
  show ?thesis
  proof (cases t1)
    case Nil
    with s1 show ?thesis by simp
  next
    case s2: (Cons c1 t2)
    show ?thesis
    proof (cases t2)
      case Nil
      with s1 s2 show ?thesis by simp
    next
      case s3: (Cons c2 t3)
      show ?thesis
      proof (cases t3)
        case Nil
        with s1 s2 s3 show ?thesis by simp
      next
        case (Cons c3 t4)
        with s1 s2 s3 show ?thesis by simp
      qed
    qed
  qed
qed

lemma Decode_undecodable:
  assumes u: "undecodable s" and ne: "s \<noteq> []"
  shows "DecodeRuneInString s = (RuneError, 1)"
proof -
  let ?a = "of_char (s ! 0) :: nat" and ?b = "of_char (s ! 1) :: nat"
  let ?c = "of_char (s ! 2) :: nat" and ?d = "of_char (s ! 3) :: nat"
  from ne have l1: "\<not> length s < 1" by (cases s) simp_all
  from u l1 have r1: "\<not> row1 ?a"
    and r2: "length s \<ge> 2 \<Longrightarrow> \<not> row2 ?a ?b"
    and r3: "length s \<ge> 3 \<Longrightarrow> \<not> row3 ?a ?b ?c"
    and r4: "length s \<ge> 4 \<Longrightarrow> \<not> row4 ?a ?b ?c ?d"
    unfolding undecodable_def utf8_wf_nth by auto
  show ?thesis
  proof (cases ?a rule: first_cases)
    case 1
    with r1 show ?thesis by (simp add: row1_def)
  next
    case 2
    with l1 show ?thesis by (simp add: DecodeRuneInString_def)
  next
    case 3
    show ?thesis
    proof (cases "length s < 2")
      case True
      with 3 l1 show ?thesis by (simp add: DecodeRuneInString_def)
    next
      case False
      with r2 3 have "?b < 0x80 \<or> 0xBF < ?b" by (auto simp: row2_def cont_def)
      with 3 l1 False show ?thesis by (simp add: DecodeRuneInString_def)
    qed
  next
    case 4
    show ?thesis
    proof (cases "length s < 3")
      case True
      with 4 l1 show ?thesis by (simp add: DecodeRuneInString_def)
    next
      case False
      with r3 4 have "(?b < 0xA0 \<or> 0xBF < ?b) \<or> (?c < 0x80 \<or> 0xBF < ?c)"
        by (auto simp: row3_def cont_def)
      with 4 l1 False show ?thesis by (auto simp: DecodeRuneInString_def Let_def)
    qed
  next
    case 5
    show ?thesis
    proof (cases "length s < 3")
      case True
      with 5 l1 show ?thesis by (simp add: DecodeRuneInString_def)
    next
      case False
      with r3 5 have "(?b < 0x80 \<or> 0xBF < ?b) \<or> (?c < 0x80 \<or> 0xBF < ?c)"
        by (auto simp: row3_def cont_def)
      with 5 l1 False show ?thesis by (auto simp: DecodeRuneInString_def Let_def)
    qed
  next
    case 6
    show ?thesis
    proof (cases "length s < 3")
      case True
      with 6 l1 show ?thesis by (simp add: DecodeRuneInString_def)
    next
      case False
      with r3 6 have "(?b < 0x80 \<or> 0x9F < ?b) \<or> (?c < 0x80 \<or> 0xBF < ?c)"
        by (auto simp: row3_def cont_def)
      with 6 l1 False show ?thesis by (auto simp: DecodeRuneInString_def Let_def)
    qed
  next
    case 7
    show ?thesis
    proof (cases "length s < 3")
      case True
      with 7 l1 show ?thesis by (simp add: DecodeRuneInString_def)
    next
      case False
      with r3 7 have "(?b < 0x80 \<or> 0xBF < ?b) \<or> (?c < 0x80 \<or> 0xBF < ?c)"
        by (auto simp: row3_def cont_def)
      with 7 l1 False show ?thesis by (auto simp: DecodeRuneInString_def Let_def)
    qed
  next
    case 8
    show ?thesis
    proof (cases "length s < 4")
      case True
      with 8 l1 show ?thesis by (simp add: DecodeRuneInString_def)
    next
      case False
      with r4 8 have "(?b < 0x90 \<or> 0xBF < ?b) \<or> (?c < 0x80 \<or> 0xBF < ?c) \<or> (?d < 0x80 \<or> 0xBF < ?d)"
        by (auto simp: row4_def cont_def)
      with 8 l1 False show ?thesis by (auto simp: DecodeRuneInString_def Let_def)
    qed
  next
    case 9
    show ?thesis
    proof (cases "length s < 4")
      case True
      with 9 l1 show ?thesis by (simp add: DecodeRuneInString_def)
    next
      case False
      with r4 9 have "(?b < 0x80 \<or> 0xBF < ?b) \<or> (?c < 0x80 \<or> 0xBF < ?c) \<or> (?d < 0x80 \<or> 0xBF < ?d)"
        by (auto simp: row4_def cont_def)
      with 9 l1 False show ?thesis by (auto simp: DecodeRuneInString_def Let_def)
    qed
  next
    case 10
    show ?thesis
    proof (cases "length s < 4")
      case True
      with 10 l1 show ?thesis by (simp add: DecodeRuneInString_def)
    next
      case False
      with r4 10 have "(?b < 0x80 \<or> 0x8F < ?b) \<or> (?c < 0x80 \<or> 0xBF < ?c) \<or> (?d < 0x80 \<or> 0xBF < ?d)"
        by (auto simp: row4_def cont_def)
      with 10 l1 False show ?thesis by (auto simp: DecodeRuneInString_def Let_def)
    qed
  qed
qed

lemma Decode_undecodable_fst: "undecodable s \<Longrightarrow> fst (DecodeRuneInString s) = RuneError"
proof (cases "s = []")
  case True
  then show ?thesis by (simp add: DecodeRuneInString_def)
next
  case False
  assume "undecodable s"
  from Decode_undecodable [OF this False] show ?thesis by simp
qed

lemma strings_Split_nonempty: "strings_Split s sep \<noteq> []"
  by (induction s) (auto split: list.splits)

lemma strings_Split_absent: "sep \<notin> set s \<Longrightarrow> strings_Split s sep = [s]"
  by (induction s) auto

lemma strings_Split_length2: "sep \<in> set s \<Longrightarrow> 2 \<le> length (strings_Split s sep)"
proof (induction s)
  case Nil
  then show ?case by simp
next
  case (Cons c s)
  then show ?case
    using strings_Split_nonempty [of s sep]
    by (cases "strings_Split s sep") (auto split: list.splits)
qed

lemma parse_ch_term:
  assumes "CHR ''='' \<notin> set v"
  shows "parseMatchers_loop ((''ch='' @ v) # rest) cpMatchers =
           (if length (strings_Split v CHR ''-'') = 1
            then parseMatchers_loop rest
                   (cpMatchers @ [\<lambda>cp. Codepoint cp = fst (DecodeRuneInString v)])
            else parseMatchers_loop rest
                   (cpMatchers @ [\<lambda>cp. Codepoint cp \<ge> fst (DecodeRuneInString (strings_Split v CHR ''-'' ! 0))
                                       \<and> Codepoint cp \<le> fst (DecodeRuneInString (strings_Split v CHR ''-'' ! 1))]))"
  using assms
  by (subst parseMatchers_loop.simps)
    (simp add: strings_Split_absent Let_def del: parseMatchers_loop.simps)

lemma parse_cp_term:
  assumes "CHR ''='' \<notin> set v"
  shows "parseMatchers_loop ((''cp='' @ v) # rest) cpMatchers =
           (if length (strings_Split v CHR ''-'') = 1
            then (case ParseUint v of
                    Inl err \<Rightarrow> Inl (NumError v err)
                  | Inr code \<Rightarrow>
                      parseMatchers_loop rest (cpMatchers @ [\<lambda>cp. Codepoint cp = rune (int code)]))
            else (case ParseUint (strings_Split v CHR ''-'' ! 0) of
                    Inl err \<Rightarrow> Inl (NumError (strings_Split v CHR ''-'' ! 0) err)
                  | Inr lowCode \<Rightarrow>
                      (case ParseUint (strings_Split v CHR ''-'' ! 1) of
                         Inl err \<Rightarrow> Inl (NumError (strings_Split v CHR ''-'' ! 1) err)
                       | Inr hiCode \<Rightarrow>
                           parseMatchers_loop rest
                             (cpMatchers @ [\<lambda>cp. Codepoint cp \<ge> rune (int lowCode)
                                                  \<and> Codepoint cp \<le> rune (int hiCode)]))))"
  using assms
  by (subst parseMatchers_loop.simps)
    (simp add: strings_Split_absent Let_def del: parseMatchers_loop.simps split: sum.splits)

lemma strings_Split_single:
  "length (strings_Split s sep) = 1 \<Longrightarrow> strings_Split s sep = [s]"
proof (cases "sep \<in> set s")
  case True
  assume "length (strings_Split s sep) = 1"
  with strings_Split_length2 [OF True] show ?thesis by simp
next
  case False
  then show ?thesis by (simp add: strings_Split_absent)
qed

text \<open>
  Claim C5, amended.  A \<open>cp=\<close> term one of whose first two dash-separated pieces is
  rejected by \<open>ParseUint\<close> makes the compiler panic with the error of \<open>strconv\<close>: no
  usage message is written and the remaining terms are not read.  A \<open>ch=\<close> term never
  fails: whatever its value, one matcher is appended and the remaining terms are
  processed.
\<close>

theorem parse_cp_unparseable_panics:
  assumes "CHR ''='' \<notin> set v"
  shows "(cp_value_rejected v \<longrightarrow>
            (\<exists>num err. parseMatchers_loop ((''cp='' @ v) # rest) cpMatchers = Inl (NumError num err)))
         \<and> (\<exists>m. parseMatchers_loop ((''ch='' @ v) # rest) cpMatchers
                  = parseMatchers_loop rest (cpMatchers @ [m]))"
proof (intro conjI impI)
  assume rej: "cp_value_rejected v"
  let ?ps = "strings_Split v CHR ''-''"
  show "\<exists>num err. parseMatchers_loop ((''cp='' @ v) # rest) cpMatchers = Inl (NumError num err)"
  proof (cases "length ?ps = 1")
    case True
    then have "?ps = [v]" by (rule strings_Split_single)
    with rej have "isl (ParseUint v)" by (simp add: cp_value_rejected_def)
    then obtain err where "ParseUint v = Inl err" by (cases "ParseUint v") simp_all
    with True show ?thesis unfolding parse_cp_term [OF assms] by simp
  next
    case False
    with strings_Split_nonempty [of v "CHR ''-''"] obtain p0 p1 ps where ps: "?ps = p0 # p1 # ps"
      by (cases ?ps; cases "tl ?ps") auto
    with rej have r: "isl (ParseUint p0) \<or> isl (ParseUint p1)"
      by (simp add: cp_value_rejected_def)
    show ?thesis
    proof (cases "ParseUint p0")
      case (Inl err)
      with False ps show ?thesis unfolding parse_cp_term [OF assms] by simp
    next
      case (Inr lowCode)
      with r obtain err where "ParseUint p1 = Inl err" by (cases "ParseUint p1") simp_all
      with Inr False ps show ?thesis unfolding parse_cp_term [OF assms] by simp
    qed
  qed
next
  show "\<exists>m. parseMatchers_loop ((''ch='' @ v) # rest) cpMatchers
              = parseMatchers_loop rest (cpMatchers @ [m])"
    unfolding parse_ch_term [OF assms] by (cases "length (strings_Split v CHR ''-'') = 1") auto
qed

theorem parse_cp_unparseable_panics_witness:
  "CHR ''='' \<notin> set ''zz'' \<and> cp_value_rejected ''zz''
   \<and> (\<exists>num err. parseMatchers_loop [''cp=zz'', ''cat=L''] [] = Inl (NumError num err))"
proof -
  have a: "CHR ''='' \<notin> set ''zz''" by simp
  have b: "cp_value_rejected ''zz''"
    by (simp add: cp_value_rejected_def ParseUint_def digitVal_def)
  from parse_cp_unparseable_panics [OF a, of "[''cat=L'']" "[]"] b
  have "\<exists>num err. parseMatchers_loop [''cp='' @ ''zz'', ''cat=L''] [] = Inl (NumError num err)"
    by blast
  then have "\<exists>num err. parseMatchers_loop [''cp=zz'', ''cat=L''] [] = Inl (NumError num err)"
    by simp
  with a b show ?thesis by (intro conjI)
qed

theorem parse_cp_unparseable_counterexample:
  "parseMatchers ''cp=zz cat=L'' = Inl (NumError ''zz'' ErrSyntax)"
  by (simp add: parseMatchers_def ParseUint_def digitVal_def)

text \<open>
  Claim C10, amended.  For a \<open>ch=\<close> term whose value holds no \<open>-\<close> and is empty or
  does not begin with a well-formed UTF-8 sequence, the compiler reports no error: it
  appends a matcher that accepts exactly the records of codepoint \<open>U+FFFD\<close> and goes on
  with the remaining terms.
\<close>

theorem parse_ch_undecodable:
  assumes "CHR ''='' \<notin> set v" and "CHR ''-'' \<notin> set v" and "undecodable v"
  shows "parseMatchers_loop ((''ch='' @ v) # rest) cpMatchers
           = parseMatchers_loop rest (cpMatchers @ [\<lambda>cp. Codepoint cp = 0xFFFD])"
  using assms(2) Decode_undecodable_fst [OF assms(3)]
  unfolding parse_ch_term [OF assms(1)]
  by (simp add: strings_Split_absent RuneError_def)

theorem parse_ch_undecodable_witness:
  "CHR ''='' \<notin> set [CHR 0xFF] \<and> CHR ''-'' \<notin> set [CHR 0xFF] \<and> undecodable [CHR 0xFF]
   \<and> parseMatchers_loop [''ch='' @ [CHR 0xFF]] [] = Inr ([], [\<lambda>cp. Codepoint cp = 0xFFFD])
   \<and> undecodable []
   \<and> parseMatchers_loop [''ch=''] [] = Inr ([], [\<lambda>cp. Codepoint cp = 0xFFFD])"
proof -
  have a: "CHR ''='' \<notin> set [CHR 0xFF]" and b: "CHR ''-'' \<notin> set [CHR 0xFF]" by simp_all
  have c: "undecodable [CHR 0xFF]" by (simp add: undecodable_def row1_def)
  have a': "CHR ''='' \<notin> set []" and b': "CHR ''-'' \<notin> set []" by simp_all
  have c': "undecodable []" by (simp add: undecodable_def)
  from parse_ch_undecodable [OF a b c, of "[]" "[]"]
  have d: "parseMatchers_loop [''ch='' @ [CHR 0xFF]] [] = Inr ([], [\<lambda>cp. Codepoint cp = 0xFFFD])"
    by simp
  from parse_ch_undecodable [OF a' b' c', of "[]" "[]"]
  have d': "parseMatchers_loop [''ch=''] [] = Inr ([], [\<lambda>cp. Codepoint cp = 0xFFFD])"
    by simp
  from a b c d c' d' show ?thesis by (intro conjI)
qed

theorem parse_ch_undecodable_counterexample:
  "DecodeRuneInString ([CHR 0xFF] @ ''-z'') = (RuneError, 1)
   \<and> \<not> isl (parseMatchers (''ch='' @ [CHR 0xFF] @ ''-z''))
   \<and> fst (projr (parseMatchers (''ch='' @ [CHR 0xFF] @ ''-z''))) = []
   \<and> length (snd (projr (parseMatchers (''ch='' @ [CHR 0xFF] @ ''-z'')))) = 1
   \<and> \<not> anyMatcher (snd (projr (parseMatchers (''ch='' @ [CHR 0xFF] @ ''-z''))))
           \<lparr>Codepoint = 0xFFFD, MajorCategory = CHR ''S'', MinorCategory = CHR ''o''\<rparr>"
  by (simp add: parseMatchers_def DecodeRuneInString_def first_def RuneError_def anyMatcher_def)

text \<open>
  Claim C2 (the code departs from it).  After a malformed term the usage error is
  reported, but processing does not stop: \<open>parseMatchers\<close> returns the matchers of the
  terms before the malformed one, and \<open>main\<close> scans and prints with them.  On a table of
  the scalar values 0 to 2, the queries \<open>cp=1 bogus\<close> (no \<open>=\<close>) and
  \<open>cp=1 key=x cp=2\<close> (unknown key) both print the range \<open>#x1\<close> after the usage error.
\<close>

theorem main_query_continues_after_usage_error:
  "main_query [\<lparr>Codepoint = 0, MajorCategory = CHR ''C'', MinorCategory = CHR ''c''\<rparr>,
               \<lparr>Codepoint = 1, MajorCategory = CHR ''C'', MinorCategory = CHR ''c''\<rparr>,
               \<lparr>Codepoint = 2, MajorCategory = CHR ''C'', MinorCategory = CHR ''c''\<rparr>]
      0 0x10ffff [] 80 ''cp=1 bogus''
   = Inr ([Stdout ''bogus: Unknown query param'', PrintUsage], Some (''#x1'' @ [CHR 0x0A]))
   \<and> main_query [\<lparr>Codepoint = 0, MajorCategory = CHR ''C'', MinorCategory = CHR ''c''\<rparr>,
               \<lparr>Codepoint = 1, MajorCategory = CHR ''C'', MinorCategory = CHR ''c''\<rparr>,
               \<lparr>Codepoint = 2, MajorCategory = CHR ''C'', MinorCategory = CHR ''c''\<rparr>]
      0 0x10ffff [] 80 ''cp=1 key=x cp=2''
   = Inr ([Stdout ''key=x: Unknown query param'', PrintUsage], Some (''#x1'' @ [CHR 0x0A]))"
  by (simp add: main_query_def parseMatchers_def unknownParam_def ParseUint_def digitVal_def
      query_def anyMatcher_def exclusiveMatchers_def rune_def
      printRanges_def printRanges_loop.simps printLine_def Range_String_def
      fmtX_def fmtHexNat.simps hexDigit_def)

end
